theory Spec2Isabelle
  imports Complex_Main
begin

section \<open>Values of the parsed documents\<close>

text \<open>
  The values that \<^verbatim>\<open>json.loads\<close> and \<^verbatim>\<open>xmltodict.parse\<close> build: \<^verbatim>\<open>None\<close>, booleans,
  unbounded integers, floats, strings, lists and dictionaries with string keys.
  A float is kept as the number it denotes: not-a-number, an infinity with its sign
  (\<open>True\<close> for the positive one), or a finite rational; Python compares a float with
  an integer by exact value, so the rational is all that equality looks at (negative
  zero, which equals zero, is identified with it).
  A dictionary is an association list in insertion order; Python keeps its keys distinct
  (\<open>wf_val\<close> below).
\<close>

datatype pyfloat = FNaN | FInf bool | FFin rat

datatype pyval =
    PNone
  | PBool bool
  | PInt int
  | PFloat pyfloat
  | PStr string
  | PList "pyval list"
  | PDict "(string \<times> pyval) list"

fun wf_val :: "pyval \<Rightarrow> bool" where
  "wf_val (PList xs) = list_all wf_val xs"
| "wf_val (PDict kvs) = (distinct (map fst kvs) \<and> list_all (\<lambda>kv. wf_val (snd kv)) kvs)"
| "wf_val _ = True"

fun nan_free :: "pyval \<Rightarrow> bool" where
  "nan_free (PFloat f) = (f \<noteq> FNaN)"
| "nan_free (PList xs) = list_all nan_free xs"
| "nan_free (PDict kvs) = list_all (\<lambda>kv. nan_free (snd kv)) kvs"
| "nan_free _ = True"

text \<open>\<^verbatim>\<open>isinstance(v, dict)\<close> and \<^verbatim>\<open>isinstance(v, list)\<close>.\<close>

fun is_dict :: "pyval \<Rightarrow> bool" where
  "is_dict (PDict kvs) = True"
| "is_dict _ = False"

fun is_list :: "pyval \<Rightarrow> bool" where
  "is_list (PList xs) = True"
| "is_list _ = False"

subsection \<open>Python's \<^verbatim>\<open>==\<close> and \<^verbatim>\<open>!=\<close>\<close>

text \<open>
  \<^verbatim>\<open>bool\<close> is a subclass of \<^verbatim>\<open>int\<close> and numbers of different types compare by value,
  so \<^verbatim>\<open>True == 1 == 1.0\<close>; not-a-number differs from everything, itself included.
  Lists compare element by element, dictionaries key by key whatever the order.
  (Inside a list or a dictionary Python takes two elements that are the same object for
  equal without comparing them. \<^verbatim>\<open>compare_dicts\<close> applies \<^verbatim>\<open>!=\<close> in its last branch only,
  never to two lists or to two dictionaries, so this plays no part in it.)
\<close>

fun num_val :: "pyval \<Rightarrow> pyfloat option" where
  "num_val (PBool b) = Some (FFin (if b then 1 else 0))"
| "num_val (PInt i) = Some (FFin (of_int i))"
| "num_val (PFloat f) = Some f"
| "num_val _ = None"

definition float_eq :: "pyfloat \<Rightarrow> pyfloat \<Rightarrow> bool" where
  "float_eq x y = (x \<noteq> FNaN \<and> x = y)"

fun py_eq :: "pyval \<Rightarrow> pyval \<Rightarrow> bool" where
  "py_eq PNone b = (case b of PNone \<Rightarrow> True | _ \<Rightarrow> False)"
| "py_eq (PStr s) b = (case b of PStr t \<Rightarrow> s = t | _ \<Rightarrow> False)"
| "py_eq (PList xs) b = (case b of PList ys \<Rightarrow> list_all2 py_eq xs ys | _ \<Rightarrow> False)"
| "py_eq (PDict xs) b =
     (case b of
        PDict ys \<Rightarrow>
          length xs = length ys \<and>
          list_all (\<lambda>kv. case map_of ys (fst kv) of
                            None \<Rightarrow> False
                          | Some w \<Rightarrow> py_eq (snd kv) w) xs
      | _ \<Rightarrow> False)"
| "py_eq a b =
     (case (num_val a, num_val b) of
        (Some x, Some y) \<Rightarrow> float_eq x y
      | _ \<Rightarrow> False)"

definition py_ne :: "pyval \<Rightarrow> pyval \<Rightarrow> bool" where
  "py_ne a b = (\<not> py_eq a b)"

section \<open>Paths and change records\<close>

text \<open>
  \<^verbatim>\<open>str(i)\<close> of a non-negative integer: its decimal digits.
\<close>

function str_nat :: "nat \<Rightarrow> string" where
  "str_nat n =
     (if n < 10 then [''0123456789'' ! n]
      else str_nat (n div 10) @ [''0123456789'' ! (n mod 10)])"
  by pat_completeness auto
termination
  by (relation "measure id") auto

declare str_nat.simps [simp del]

text \<open>
  The closure \<^verbatim>\<open>full_path\<close> of \<^verbatim>\<open>compare_dicts\<close>, with the enclosing \<^verbatim>\<open>path\<close> as
  its first argument: \<^verbatim>\<open>f"{path}.{sub}" if path else str(sub)\<close>. An empty string is
  false in Python. \<open>index_seg i\<close> is the argument \<^verbatim>\<open>f"[{i}]"\<close> of the list branch.
\<close>

definition full_path :: "string \<Rightarrow> string \<Rightarrow> string" where
  "full_path path sub = (if path \<noteq> [] then path @ ''.'' @ sub else sub)"

definition index_seg :: "nat \<Rightarrow> string" where
  "index_seg i = ''['' @ str_nat i @ '']''"

text \<open>
  A change record is the dictionary the code appends, with its keys in the order of
  the dictionary display.
\<close>

definition removed_rec :: "string \<Rightarrow> pyval \<Rightarrow> pyval" where
  "removed_rec p v = PDict [(''type'', PStr ''removed''), (''path'', PStr p), (''old'', v)]"

definition added_rec :: "string \<Rightarrow> pyval \<Rightarrow> pyval" where
  "added_rec p v = PDict [(''type'', PStr ''added''), (''path'', PStr p), (''new'', v)]"

definition modified_rec :: "string \<Rightarrow> pyval \<Rightarrow> pyval \<Rightarrow> pyval" where
  "modified_rec p a b =
     PDict [(''type'', PStr ''modified''), (''path'', PStr p), (''old'', a), (''new'', b)]"

text \<open>\<^verbatim>\<open>r[key]\<close> where it exists, for reading a record's fields.\<close>

fun field :: "pyval \<Rightarrow> string \<Rightarrow> pyval option" where
  "field (PDict kvs) k = map_of kvs k"
| "field _ k = None"

section \<open>The structural diff\<close>

text \<open>
  \<^verbatim>\<open>compare_dicts(old, new, path)\<close>. Each \<^verbatim>\<open>for\<close> loop is a left fold over what it
  iterates, with the list \<^verbatim>\<open>changes\<close> as the accumulator: \<^verbatim>\<open>append\<close> and \<^verbatim>\<open>extend\<close>
  add at the end. A loop over a dictionary runs over its items in insertion order,
  \<open>fst kv\<close> being the key \<^verbatim>\<open>k\<close> and \<open>snd kv\<close> the value \<^verbatim>\<open>old[k]\<close>; \<^verbatim>\<open>k not in new\<close> and
  \<^verbatim>\<open>new[k]\<close> are one lookup in the other dictionary.
\<close>

function (sequential) compare_dicts :: "pyval \<Rightarrow> pyval \<Rightarrow> string \<Rightarrow> pyval list" where
  "compare_dicts (PDict od) (PDict nd) path =
     (let changes =
            foldl (\<lambda>changes kv.
                     case map_of nd (fst kv) of
                       None \<Rightarrow> changes @ [removed_rec (full_path path (fst kv)) (snd kv)]
                     | Some v' \<Rightarrow>
                         changes @ compare_dicts (snd kv) v' (full_path path (fst kv)))
                  [] od
      in foldl (\<lambda>changes kv.
                  if map_of od (fst kv) = None
                  then changes @ [added_rec (full_path path (fst kv)) (snd kv)]
                  else changes)
               changes nd)"
| "compare_dicts (PList ol) (PList nl) path =
     (let minlen = min (length ol) (length nl);
          changes =
            foldl (\<lambda>changes i.
                     changes @ compare_dicts (ol ! i) (nl ! i) (full_path path (index_seg i)))
                  [] [0..<minlen]
      in if length ol > length nl
         then foldl (\<lambda>changes i.
                       changes @ [removed_rec (full_path path (index_seg i)) (ol ! i)])
                    changes [minlen..<length ol]
         else if length nl > length ol
         then foldl (\<lambda>changes i.
                       changes @ [added_rec (full_path path (index_seg i)) (nl ! i)])
                    changes [minlen..<length nl]
         else changes)"
| "compare_dicts old new path =
     (if py_ne old new
      then [modified_rec (if path \<noteq> [] then path else ''/'') old new]
      else [])"
  by pat_completeness auto
termination
proof (relation "measure (\<lambda>(old, new, path). size old)", goal_cases)
  case 1
  show ?case by simp
next
  case (2 od nd path changes kv v')
  have "size (snd kv) \<le> size_list (\<lambda>x. size (snd x)) od"
    using 2(1) by (induction od) auto
  also have "\<dots> \<le> size_list (size_prod (\<lambda>_. 0) size) od"
    by (rule size_list_pointwise) (simp add: size_prod_simp)
  finally show ?case by simp
next
  case (3 ol nl path minlen changes i)
  then have "i < length ol" by simp
  then have "ol ! i \<in> set ol" by simp
  then have "size (ol ! i) \<le> size_list size ol"
    by (rule size_list_estimation') simp
  then show ?case by simp
qed

section \<open>Addresses inside a document\<close>

text \<open>
  A path segment is a field name or a list index. \<open>seg_str\<close> is the string that
  \<^verbatim>\<open>compare_dicts\<close> hands to \<^verbatim>\<open>full_path\<close> for the segment, and \<open>render\<close> the path string
  that the recursion has built after descending through the segments from the empty
  path. \<open>resolve\<close> follows the segments into a document.
\<close>

datatype seg = Field string | Index nat

fun seg_str :: "seg \<Rightarrow> string" where
  "seg_str (Field k) = k"
| "seg_str (Index i) = index_seg i"

definition render :: "seg list \<Rightarrow> string" where
  "render segs = foldl full_path [] (map seg_str segs)"

fun resolve :: "pyval \<Rightarrow> seg list \<Rightarrow> pyval option" where
  "resolve v [] = Some v"
| "resolve (PDict kvs) (Field k # segs) =
     (case map_of kvs k of None \<Rightarrow> None | Some v \<Rightarrow> resolve v segs)"
| "resolve (PList xs) (Index i # segs) =
     (if i < length xs then resolve (xs ! i) segs else None)"
| "resolve _ _ = None"

text \<open>
  The addresses of the records of \<^verbatim>\<open>compare_dicts\<close>, in the order of the records: the
  same traversal, collecting where each record is emitted instead of the record.
\<close>

function (sequential) addrs :: "pyval \<Rightarrow> pyval \<Rightarrow> seg list \<Rightarrow> seg list list" where
  "addrs (PDict od) (PDict nd) segs =
     concat (map (\<lambda>kv. case map_of nd (fst kv) of
                          None \<Rightarrow> [segs @ [Field (fst kv)]]
                        | Some v' \<Rightarrow> addrs (snd kv) v' (segs @ [Field (fst kv)])) od)
     @ concat (map (\<lambda>kv. if map_of od (fst kv) = None
                          then [segs @ [Field (fst kv)]] else []) nd)"
| "addrs (PList ol) (PList nl) segs =
     concat (map (\<lambda>i. addrs (ol ! i) (nl ! i) (segs @ [Index i]))
                 [0..<min (length ol) (length nl)])
     @ map (\<lambda>i. segs @ [Index i])
           [min (length ol) (length nl)..<max (length ol) (length nl)]"
| "addrs old new segs = (if py_ne old new then [segs] else [])"
  by pat_completeness auto
termination
proof (relation "measure (\<lambda>(old, new, segs). size old)", goal_cases)
  case 1
  show ?case by simp
next
  case (2 od nd segs kv v')
  have "size (snd kv) \<le> size_list (\<lambda>x. size (snd x)) od"
    using 2(1) by (induction od) auto
  also have "\<dots> \<le> size_list (size_prod (\<lambda>_. 0) size) od"
    by (rule size_list_pointwise) (simp add: size_prod_simp)
  finally show ?case by simp
next
  case (3 ol nl segs i)
  then have "ol ! i \<in> set ol" by simp
  then have "size (ol ! i) \<le> size_list size ol"
    by (rule size_list_estimation') simp
  then show ?case by simp
qed

text \<open>
  The rendering the specification describes: a field name contributes \<open>.name\<close>, a list
  index contributes \<open>[i]\<close> with no dot before the bracket, the leading dot is dropped,
  and the empty path is \<open>/\<close>.
\<close>

fun spec_seg :: "seg \<Rightarrow> string" where
  "spec_seg (Field k) = ''.'' @ k"
| "spec_seg (Index i) = ''['' @ str_nat i @ '']''"

definition spec_render :: "seg list \<Rightarrow> string" where
  "spec_render segs =
     (case segs of
        [] \<Rightarrow> ''/''
      | Field k # rest \<Rightarrow> k @ concat (map spec_seg rest)
      | Index i # rest \<Rightarrow> concat (map spec_seg segs))"

definition spec_paths :: "pyval \<Rightarrow> pyval \<Rightarrow> bool" where
  "spec_paths old new =
     list_all2 (\<lambda>segs r. field r ''path'' = Some (PStr (spec_render segs)))
               (addrs old new []) (compare_dicts old new [])"

text \<open>Strings joined by dots.\<close>

fun dot_join :: "string list \<Rightarrow> string" where
  "dot_join [] = []"
| "dot_join [s] = s"
| "dot_join (s # t # ts) = s @ ''.'' @ dot_join (t # ts)"

text \<open>
  What a record says about the two documents at an address: its path string is the
  rendering of the address (\<open>/\<close> for a \<^verbatim>\<open>modified\<close> record whose rendering is empty), and
  the values it records are the ones found at the address, in the old document for
  \<^verbatim>\<open>removed\<close> and \<^verbatim>\<open>modified\<close>, in the new one for \<^verbatim>\<open>added\<close> and \<^verbatim>\<open>modified\<close>.
\<close>

definition record_path :: "seg list \<Rightarrow> pyval \<Rightarrow> bool" where
  "record_path segs r =
     (field r ''path'' =
        Some (PStr (if field r ''type'' = Some (PStr ''modified'') \<and> render segs = []
                    then ''/'' else render segs)))"

definition record_at :: "pyval \<Rightarrow> pyval \<Rightarrow> seg list \<Rightarrow> pyval \<Rightarrow> bool" where
  "record_at old new segs r =
     (case field r ''type'' of
        Some (PStr t) \<Rightarrow>
          if t = ''removed''
          then field r ''old'' \<noteq> None \<and> resolve old segs = field r ''old''
          else if t = ''added''
          then field r ''new'' \<noteq> None \<and> resolve new segs = field r ''new''
          else if t = ''modified''
          then field r ''old'' \<noteq> None \<and> resolve old segs = field r ''old'' \<and>
               field r ''new'' \<noteq> None \<and> resolve new segs = field r ''new''
          else False
      | _ \<Rightarrow> False)"

definition record_ok :: "pyval \<Rightarrow> pyval \<Rightarrow> seg list \<Rightarrow> pyval \<Rightarrow> bool" where
  "record_ok old new segs r = (record_path segs r \<and> record_at old new segs r)"

text \<open>
  The invariant of the specification for a given way \<open>res\<close> of resolving a path string
  in a document: every \<^verbatim>\<open>removed\<close> or \<^verbatim>\<open>modified\<close> record's path resolves in the old
  document to its \<^verbatim>\<open>old\<close> value, every \<^verbatim>\<open>added\<close> or \<^verbatim>\<open>modified\<close> record's path resolves in
  the new document to its \<^verbatim>\<open>new\<close> value.
\<close>

definition path_resolves :: "(pyval \<Rightarrow> string \<Rightarrow> pyval option) \<Rightarrow> pyval \<Rightarrow> pyval \<Rightarrow> bool" where
  "path_resolves res old new =
     list_all
       (\<lambda>r. case (field r ''type'', field r ''path'') of
              (Some (PStr t), Some (PStr p)) \<Rightarrow>
                (if t = ''removed'' \<or> t = ''modified''
                 then res old p = field r ''old'' else True) \<and>
                (if t = ''added'' \<or> t = ''modified''
                 then res new p = field r ''new'' else True)
            | _ \<Rightarrow> False)
       (compare_dicts old new [])"

section \<open>Normalisation and the reports\<close>

text \<open>
  The library functions the script calls are parameters of the model. A parser either
  raises (\<open>Inl\<close>) or returns a value (\<open>Inr\<close>). \<open>json_dumps\<close> takes the flags
  \<^verbatim>\<open>sort_keys\<close> and \<^verbatim>\<open>ensure_ascii\<close> (the script always passes \<^verbatim>\<open>indent=2\<close>);
  \<open>unified_diff\<close> and \<open>make_file\<close> take the two lists of lines and the two file names.
  The calls that act on the outside, \<^verbatim>\<open>mkdir\<close>, \<^verbatim>\<open>write_text\<close> (of a file name and a
  text) and \<^verbatim>\<open>print\<close>, return the exception they raise, if any: \<^verbatim>\<open>write_text\<close> with
  \<^verbatim>\<open>encoding="utf-8"\<close> raises \<^verbatim>\<open>UnicodeEncodeError\<close> on a text that holds a lone
  surrogate, which \<^verbatim>\<open>json.loads\<close> accepts and \<^verbatim>\<open>json.dumps\<close> with
  \<^verbatim>\<open>ensure_ascii=False\<close> keeps.
\<close>

datatype exn = Raised string

record libs =
  json_loads :: "string \<Rightarrow> exn + pyval"
  xmltodict_parse :: "string \<Rightarrow> exn + pyval"
  json_dumps :: "bool \<Rightarrow> bool \<Rightarrow> pyval \<Rightarrow> string"
  py_str :: "pyval \<Rightarrow> string"
  splitlines :: "string \<Rightarrow> string list"
  unified_diff :: "string list \<Rightarrow> string list \<Rightarrow> string \<Rightarrow> string \<Rightarrow> string list"
  make_file :: "string list \<Rightarrow> string list \<Rightarrow> string \<Rightarrow> string \<Rightarrow> string"
  mkdir :: "string \<Rightarrow> exn option"
  write_text :: "string \<Rightarrow> string \<Rightarrow> exn option"
  py_print :: "string \<Rightarrow> exn option"

text \<open>
  \<^verbatim>\<open>try: return json.loads(text)  except: return None\<close>, and the same for XML. The
  result is a sum so that an exception leaving the function would be a value \<open>Inl\<close>.
\<close>

definition try_parse_json :: "libs \<Rightarrow> string \<Rightarrow> exn + pyval" where
  "try_parse_json L text = (case json_loads L text of Inr v \<Rightarrow> Inr v | Inl e \<Rightarrow> Inr PNone)"

definition try_parse_xml :: "libs \<Rightarrow> string \<Rightarrow> exn + pyval" where
  "try_parse_xml L text =
     (case xmltodict_parse L text of Inr v \<Rightarrow> Inr v | Inl e \<Rightarrow> Inr PNone)"

definition normalize_to_object :: "libs \<Rightarrow> string \<Rightarrow> exn + (pyval \<times> string)" where
  "normalize_to_object L text =
     (case try_parse_json L text of
        Inl e \<Rightarrow> Inl e
      | Inr json_obj \<Rightarrow>
          if json_obj \<noteq> PNone then Inr (json_obj, ''json'')
          else (case try_parse_xml L text of
                  Inl e \<Rightarrow> Inl e
                | Inr xml_obj \<Rightarrow>
                    if xml_obj \<noteq> PNone then Inr (xml_obj, ''xml'')
                    else Inr (PNone, ''text'')))"




definition placeholder :: pyval where
  "placeholder =
     PDict [(''info'',
             PStr ''Structured diff unavailable; see diff_report.txt or diff_report.html.'')]"



text \<open>
  Stand-ins for the libraries, to run the model on concrete texts. \<^verbatim>\<open>json.loads\<close> knows
  the documents \<^verbatim>\<open>null\<close>, \<^verbatim>\<open>[1]\<close> and \<open>surrogate_json\<close>, the string literal with the one
  escape \<^verbatim>\<open>\ud800\<close>, whose value is the lone surrogate (kept here as the three bytes
  \<open>lone_surrogate\<close>); \<^verbatim>\<open>xmltodict.parse\<close> knows the document \<^verbatim>\<open><a/>\<close>; both raise on every
  other text, as the real parsers do on each other's documents. \<^verbatim>\<open>json.dumps\<close> keeps the
  lone surrogate when \<^verbatim>\<open>ensure_ascii\<close> is false, and \<^verbatim>\<open>write_text\<close> raises on a text that
  holds its first byte. The other renderers return fixed marks.
\<close>

definition lone_surrogate :: string where
  "lone_surrogate = [CHR 0xED, CHR 0xA0, CHR 0x80]"

definition surrogate_json :: string where
  "surrogate_json = [CHR 0x22, CHR 0x5C] @ ''ud800'' @ [CHR 0x22]"

definition demo_libs :: libs where
  "demo_libs =
     \<lparr> json_loads = (\<lambda>t. if t = ''null'' then Inr PNone
                          else if t = ''[1]'' then Inr (PList [PInt 1])
                          else if t = surrogate_json then Inr (PStr lone_surrogate)
                          else Inl (Raised ''JSONDecodeError'')),
       xmltodict_parse = (\<lambda>t. if t = ''<a/>'' then Inr (PDict [(''a'', PNone)])
                               else Inl (Raised ''ExpatError'')),
       json_dumps = (\<lambda>sort_keys ensure_ascii v.
                       if v = placeholder then ''{info}''
                       else if v = PStr lone_surrogate \<and> \<not> ensure_ascii
                       then [CHR 0x22] @ lone_surrogate @ [CHR 0x22]
                       else ''[...]''),
       py_str = (\<lambda>v. ''str''),
       splitlines = (\<lambda>t. [t]),
       unified_diff = (\<lambda>a b fromfile tofile. a @ b),
       make_file = (\<lambda>a b fromdesc todesc. concat (a @ b)),
       mkdir = (\<lambda>d. None),
       write_text = (\<lambda>name text. if CHR 0xED \<in> set text
                                  then Some (Raised ''UnicodeEncodeError'') else None),
       py_print = (\<lambda>line. None) \<rparr>"

section \<open>The loops as lists of records\<close>

lemma foldl_append_concat:
  "foldl (\<lambda>acc x. acc @ f x) acc xs = acc @ concat (map f xs)"
  by (induction xs arbitrary: acc) auto

lemma foldl_append_filter:
  "foldl (\<lambda>acc x. if p x then acc @ [f x] else acc) acc xs = acc @ map f (filter p xs)"
  by (induction xs arbitrary: acc) auto

lemma compare_dicts_dict:
  "compare_dicts (PDict od) (PDict nd) path =
     concat (map (\<lambda>kv. case map_of nd (fst kv) of
                          None \<Rightarrow> [removed_rec (full_path path (fst kv)) (snd kv)]
                        | Some v' \<Rightarrow> compare_dicts (snd kv) v' (full_path path (fst kv))) od)
     @ map (\<lambda>kv. added_rec (full_path path (fst kv)) (snd kv))
           (filter (\<lambda>kv. map_of od (fst kv) = None) nd)"
proof -
  have "(\<lambda>changes kv. case map_of nd (fst kv) of
                       None \<Rightarrow> changes @ [removed_rec (full_path path (fst kv)) (snd kv)]
                     | Some v' \<Rightarrow> changes @ compare_dicts (snd kv) v' (full_path path (fst kv)))
      = (\<lambda>changes kv. changes @ (case map_of nd (fst kv) of
                       None \<Rightarrow> [removed_rec (full_path path (fst kv)) (snd kv)]
                     | Some v' \<Rightarrow> compare_dicts (snd kv) v' (full_path path (fst kv))))"
    by (intro ext) (simp split: option.split)
  then show ?thesis
    by (simp add: foldl_append_concat foldl_append_filter)
qed

lemma compare_dicts_list:
  "compare_dicts (PList ol) (PList nl) path =
     concat (map (\<lambda>i. compare_dicts (ol ! i) (nl ! i) (full_path path (index_seg i)))
                 [0..<min (length ol) (length nl)])
     @ map (\<lambda>i. removed_rec (full_path path (index_seg i)) (ol ! i)) [length nl..<length ol]
     @ map (\<lambda>i. added_rec (full_path path (index_seg i)) (nl ! i)) [length ol..<length nl]"
  by (simp add: foldl_append_concat Let_def min_def)


lemmas eval_defs =
  py_ne_def float_eq_def full_path_def index_seg_def
  removed_rec_def added_rec_def modified_rec_def

section \<open>Leaves\<close>

text \<open>
  C10. The leaf comparison is Python's \<^verbatim>\<open>!=\<close>, which compares numbers of different types
  by value: for old \<^verbatim>\<open>1\<close> and new \<^verbatim>\<open>true\<close>, and for old \<^verbatim>\<open>1\<close> and new \<^verbatim>\<open>1.0\<close>,
  \<^verbatim>\<open>compare_dicts\<close> returns the empty list, not a \<^verbatim>\<open>modified\<close> record.
\<close>

theorem cross_type_equal_unreported:
  "compare_dicts (PInt 1) (PBool True) [] = [] \<and>
   compare_dicts (PInt 1) (PFloat (FFin 1)) [] = []"
  by (simp add: py_ne_def float_eq_def)





section \<open>Sequences and mappings\<close>

declare compare_dicts.simps(1,2) [simp del]


lemma map_of_distinct_item:
  "distinct (map fst kvs) \<Longrightarrow> kv \<in> set kvs \<Longrightarrow> map_of kvs (fst kv) = Some (snd kv)"
  by (cases kv) simp

lemma map_filter_concat:
  "map f (filter p xs) = concat (map (\<lambda>x. if p x then [f x] else []) xs)"
  by (induction xs) auto

lemma mapping_diff_keys:
  assumes "distinct (map fst od)" and "distinct (map fst nd)"
  shows "compare_dicts (PDict od) (PDict nd) path =
     concat (map (\<lambda>k. case map_of od k of
                         None \<Rightarrow> []
                       | Some v \<Rightarrow>
                           (case map_of nd k of
                              None \<Rightarrow> [removed_rec (full_path path k) v]
                            | Some v' \<Rightarrow> compare_dicts v v' (full_path path k)))
                 (map fst od))
     @ concat (map (\<lambda>k. case map_of nd k of
                           None \<Rightarrow> []
                         | Some v' \<Rightarrow>
                             if map_of od k = None
                             then [added_rec (full_path path k) v'] else [])
                   (map fst nd))"
proof -
  have old_loop:
    "map (\<lambda>kv. case map_of nd (fst kv) of
                 None \<Rightarrow> [removed_rec (full_path path (fst kv)) (snd kv)]
               | Some v' \<Rightarrow> compare_dicts (snd kv) v' (full_path path (fst kv))) od
     = map (\<lambda>k. case map_of od k of
                  None \<Rightarrow> []
                | Some v \<Rightarrow>
                    (case map_of nd k of
                       None \<Rightarrow> [removed_rec (full_path path k) v]
                     | Some v' \<Rightarrow> compare_dicts v v' (full_path path k)))
           (map fst od)"
    using map_of_distinct_item [OF assms(1)] by (simp add: comp_def cong: map_cong)
  have new_loop:
    "map (\<lambda>kv. if map_of od (fst kv) = None
               then [added_rec (full_path path (fst kv)) (snd kv)] else []) nd
     = map (\<lambda>k. case map_of nd k of
                  None \<Rightarrow> []
                | Some v' \<Rightarrow>
                    if map_of od k = None then [added_rec (full_path path k) v'] else [])
           (map fst nd)"
    using map_of_distinct_item [OF assms(2)] by (simp add: comp_def cong: map_cong)
  show ?thesis
    unfolding compare_dicts_dict map_filter_concat old_loop new_loop ..
qed

text \<open>
  C5. For two mappings, \<^verbatim>\<open>compare_dicts\<close> goes through the keys of \<^verbatim>\<open>old\<close> in insertion
  order, emitting for a key absent from \<^verbatim>\<open>new\<close> one \<^verbatim>\<open>removed\<close> record with \<^verbatim>\<open>old[key]\<close> and
  for a key of both the records of the recursive diff at the extended path; then through
  the keys of \<^verbatim>\<open>new\<close> in insertion order, emitting for a key absent from \<^verbatim>\<open>old\<close> one
  \<^verbatim>\<open>added\<close> record with \<^verbatim>\<open>new[key]\<close>. The records appear in exactly this order. The
  extended path is the key itself at the empty path and the path, a dot and the key
  otherwise; each record is the dictionary of its type, this path and the value.
\<close>

theorem mapping_diff:
  assumes "distinct (map fst od)" and "distinct (map fst nd)"
  shows "compare_dicts (PDict od) (PDict nd) path =
     concat (map (\<lambda>k. case map_of od k of
                         None \<Rightarrow> []
                       | Some v \<Rightarrow>
                           (case map_of nd k of
                              None \<Rightarrow>
                                [PDict [(''type'', PStr ''removed''),
                                        (''path'', PStr (if path \<noteq> [] then path @ ''.'' @ k
                                                         else k)),
                                        (''old'', v)]]
                            | Some v' \<Rightarrow>
                                compare_dicts v v' (if path \<noteq> [] then path @ ''.'' @ k
                                                    else k)))
                 (map fst od))
     @ concat (map (\<lambda>k. case map_of nd k of
                           None \<Rightarrow> []
                         | Some v' \<Rightarrow>
                             if map_of od k = None
                             then [PDict [(''type'', PStr ''added''),
                                          (''path'', PStr (if path \<noteq> [] then path @ ''.'' @ k
                                                           else k)),
                                          (''new'', v')]]
                             else [])
                   (map fst nd))"
  using mapping_diff_keys [OF assms, of path]
  unfolding removed_rec_def added_rec_def full_path_def .

theorem mapping_diff_witness:
  "distinct (map fst [(''a'', PDict [(''x'', PInt 1), (''y'', PInt 2)]), (''b'', PInt 2)]) \<and>
   distinct (map fst [(''a'', PDict [(''x'', PInt 5)]), (''c'', PInt 3)]) \<and>
   compare_dicts (PDict [(''a'', PDict [(''x'', PInt 1), (''y'', PInt 2)]), (''b'', PInt 2)])
                 (PDict [(''a'', PDict [(''x'', PInt 5)]), (''c'', PInt 3)]) [] =
     [PDict [(''type'', PStr ''modified''), (''path'', PStr ''a.x''),
             (''old'', PInt 1), (''new'', PInt 5)],
      PDict [(''type'', PStr ''removed''), (''path'', PStr ''a.y''), (''old'', PInt 2)],
      PDict [(''type'', PStr ''removed''), (''path'', PStr ''b''), (''old'', PInt 2)],
      PDict [(''type'', PStr ''added''), (''path'', PStr ''c''), (''new'', PInt 3)]] \<and>
   compare_dicts (PDict [(''a'', PInt 1)]) (PDict [(''a'', PInt 1), (''b'', PInt 2)]) [] =
     [PDict [(''type'', PStr ''added''), (''path'', PStr ''b''), (''new'', PInt 2)]] \<and>
   compare_dicts (PDict [(''a'', PInt 1), (''b'', PInt 2)]) (PDict [(''a'', PInt 1)]) [] =
     [PDict [(''type'', PStr ''removed''), (''path'', PStr ''b''), (''old'', PInt 2)]]"
proof -
  have d: "distinct (map fst [(''a'', PDict [(''x'', PInt 1), (''y'', PInt 2)]), (''b'', PInt 2)])"
          "distinct (map fst [(''a'', PDict [(''x'', PInt 5)]), (''c'', PInt 3)])"
    by simp_all
  have inner: "compare_dicts (PDict [(''x'', PInt 1), (''y'', PInt 2)])
                 (PDict [(''x'', PInt 5)]) ''a'' =
     [PDict [(''type'', PStr ''modified''), (''path'', PStr ''a.x''),
             (''old'', PInt 1), (''new'', PInt 5)],
      PDict [(''type'', PStr ''removed''), (''path'', PStr ''a.y''), (''old'', PInt 2)]]"
    using mapping_diff [of "[(''x'', PInt 1), (''y'', PInt 2)]" "[(''x'', PInt 5)]" "''a''"]
    by (simp add: py_ne_def float_eq_def modified_rec_def)
  have outer: "compare_dicts
                 (PDict [(''a'', PDict [(''x'', PInt 1), (''y'', PInt 2)]), (''b'', PInt 2)])
                 (PDict [(''a'', PDict [(''x'', PInt 5)]), (''c'', PInt 3)]) [] =
     [PDict [(''type'', PStr ''modified''), (''path'', PStr ''a.x''),
             (''old'', PInt 1), (''new'', PInt 5)],
      PDict [(''type'', PStr ''removed''), (''path'', PStr ''a.y''), (''old'', PInt 2)],
      PDict [(''type'', PStr ''removed''), (''path'', PStr ''b''), (''old'', PInt 2)],
      PDict [(''type'', PStr ''added''), (''path'', PStr ''c''), (''new'', PInt 3)]]"
    using mapping_diff [OF d, of "[]"] inner by simp
  have ex1: "compare_dicts (PDict [(''a'', PInt 1)]) (PDict [(''a'', PInt 1), (''b'', PInt 2)]) [] =
     [PDict [(''type'', PStr ''added''), (''path'', PStr ''b''), (''new'', PInt 2)]]"
    using mapping_diff [of "[(''a'', PInt 1)]" "[(''a'', PInt 1), (''b'', PInt 2)]" "[]"]
    by (simp add: py_ne_def float_eq_def)
  have ex2: "compare_dicts (PDict [(''a'', PInt 1), (''b'', PInt 2)]) (PDict [(''a'', PInt 1)]) [] =
     [PDict [(''type'', PStr ''removed''), (''path'', PStr ''b''), (''old'', PInt 2)]]"
    using mapping_diff [of "[(''a'', PInt 1), (''b'', PInt 2)]" "[(''a'', PInt 1)]" "[]"]
    by (simp add: py_ne_def float_eq_def)
  show ?thesis
    using d outer ex1 ex2 by simp
qed

section \<open>A document against itself\<close>

lemma py_eq_refl_leaf:
  "\<not> is_dict a \<Longrightarrow> \<not> is_list a \<Longrightarrow> nan_free a \<Longrightarrow> py_eq a a"
  by (cases a) (simp_all add: float_eq_def)

text \<open>
  C4, as amended. For every value \<open>A\<close> obtained by parsing a document that contains no
  not-a-number (\<^verbatim>\<open>json.loads\<close> accepts the literal \<^verbatim>\<open>NaN\<close>), \<^verbatim>\<open>compare_dicts(A, A)\<close> is the
  empty list, at every path. The keys of each dictionary of \<open>A\<close> are distinct, as in
  every Python dictionary.
\<close>

theorem self_diff_empty:
  assumes "wf_val a" and "nan_free a"
  shows "compare_dicts a a path = []"
  using assms
proof (induction a arbitrary: path rule: wf_val.induct)
  case (1 xs)
  have "compare_dicts (xs ! i) (xs ! i) p = []" if "i < length xs" for i p
  proof -
    have "xs ! i \<in> set xs" using that by simp
    moreover have "wf_val (xs ! i)" "nan_free (xs ! i)"
      using "1.prems" that by (simp_all add: list_all_length)
    ultimately show ?thesis using "1.IH" by blast
  qed
  then show ?case
    by (simp add: compare_dicts_list)
next
  case (2 kvs)
  have d: "distinct (map fst kvs)" using "2.prems" by simp
  have item: "(case map_of kvs (fst kv) of
                 None \<Rightarrow> [removed_rec (full_path path (fst kv)) (snd kv)]
               | Some v' \<Rightarrow> compare_dicts (snd kv) v' (full_path path (fst kv))) = []"
    if "kv \<in> set kvs" for kv
  proof -
    have "wf_val (snd kv)" "nan_free (snd kv)"
      using "2.prems" that by (simp_all add: list_all_iff)
    then have "compare_dicts (snd kv) (snd kv) (full_path path (fst kv)) = []"
      using "2.IH" that by blast
    then show ?thesis
      using map_of_distinct_item [OF d that] by simp
  qed
  have "filter (\<lambda>kv. map_of kvs (fst kv) = None) kvs = []"
    using map_of_distinct_item [OF d] by (simp add: filter_empty_conv)
  then show ?case
    using item by (simp add: compare_dicts_dict)
qed (simp_all add: py_ne_def float_eq_def)

theorem self_diff_empty_witness:
  "wf_val (PDict [(''a'', PList [PInt 1, PFloat (FFin 2)])]) \<and>
   nan_free (PDict [(''a'', PList [PInt 1, PFloat (FFin 2)])]) \<and>
   compare_dicts (PDict [(''a'', PList [PInt 1, PFloat (FFin 2)])])
                 (PDict [(''a'', PList [PInt 1, PFloat (FFin 2)])]) [] = []"
  using self_diff_empty [of "PDict [(''a'', PList [PInt 1, PFloat (FFin 2)])]" "[]"]
  by (simp add: compare_dicts_dict compare_dicts_list eval_defs)

text \<open>
  The claim fails as stated: \<^verbatim>\<open>json.loads("NaN")\<close> is the float not-a-number, which
  differs from itself, so the diff of this value against itself is one \<^verbatim>\<open>modified\<close>
  record.
\<close>

theorem self_diff_nan_counterexample:
  "compare_dicts (PFloat FNaN) (PFloat FNaN) [] =
     [PDict [(''type'', PStr ''modified''), (''path'', PStr ''/''),
             (''old'', PFloat FNaN), (''new'', PFloat FNaN)]]
   \<and> compare_dicts (PFloat FNaN) (PFloat FNaN) [] \<noteq> []"
  by (simp add: py_ne_def float_eq_def modified_rec_def)

section \<open>The normaliser\<close>

text \<open>
  C9. \<^verbatim>\<open>try_parse_json\<close>, \<^verbatim>\<open>try_parse_xml\<close> and \<^verbatim>\<open>normalize_to_object\<close> return a result for
  every input text and whatever the parsers do: no exception leaves them. A parser that
  raises gives \<^verbatim>\<open>None\<close>, and when both raise the result is \<^verbatim>\<open>(None, "text")\<close>.
\<close>

theorem normalize_never_raises:
  "(\<exists>v. try_parse_json L text = Inr v) \<and>
   (\<exists>v. try_parse_xml L text = Inr v) \<and>
   (\<exists>v fmt. normalize_to_object L text = Inr (v, fmt)) \<and>
   (\<forall>e. json_loads L text = Inl e \<longrightarrow> try_parse_json L text = Inr PNone) \<and>
   (\<forall>e. xmltodict_parse L text = Inl e \<longrightarrow> try_parse_xml L text = Inr PNone) \<and>
   (\<forall>e e'. json_loads L text = Inl e \<and> xmltodict_parse L text = Inl e' \<longrightarrow>
      normalize_to_object L text = Inr (PNone, ''text''))"
  by (auto simp: try_parse_json_def try_parse_xml_def normalize_to_object_def
           split: sum.splits)

theorem normalize_never_raises_witness:
  "json_loads demo_libs ''oops'' = Inl (Raised ''JSONDecodeError'') \<and>
   xmltodict_parse demo_libs ''oops'' = Inl (Raised ''ExpatError'') \<and>
   try_parse_json demo_libs ''oops'' = Inr PNone \<and>
   try_parse_xml demo_libs ''oops'' = Inr PNone \<and>
   normalize_to_object demo_libs ''oops'' = Inr (PNone, ''text'')"
  using normalize_never_raises [of demo_libs "''oops''"]
  by (simp add: demo_libs_def surrogate_json_def)

lemma json_none_falls_through:
  "json_loads L text = Inr PNone \<Longrightarrow> xmltodict_parse L text = Inl e \<Longrightarrow>
   normalize_to_object L text = Inr (PNone, ''text'')"
  by (simp add: try_parse_json_def try_parse_xml_def normalize_to_object_def)

text \<open>
  C2. The text \<^verbatim>\<open>null\<close> is valid JSON, and \<^verbatim>\<open>json.loads\<close> returns \<^verbatim>\<open>None\<close> for it, the
  value \<^verbatim>\<open>try_parse_json\<close> also returns for a failure. \<^verbatim>\<open>normalize_to_object\<close> takes it for
  a failure, tries XML, which raises on this text, and returns \<^verbatim>\<open>(None, "text")\<close>: the
  tag is not \<^verbatim>\<open>"json"\<close>.
\<close>

theorem normalize_null_is_text:
  "json_loads demo_libs ''null'' = Inr PNone \<and>
   normalize_to_object demo_libs ''null'' = Inr (PNone, ''text'')"
  using json_none_falls_through [of demo_libs "''null''" "Raised ''ExpatError''"]
  by (simp add: demo_libs_def surrogate_json_def)

section \<open>The reports\<close>





section \<open>Records and their addresses\<close>

lemma render_snoc: "render (segs @ [s]) = full_path (render segs) (seg_str s)"
  by (simp add: render_def)

lemma resolve_append:
  "resolve v (xs @ ys) = (case resolve v xs of None \<Rightarrow> None | Some w \<Rightarrow> resolve w ys)"
  by (induction v xs rule: resolve.induct) (simp_all split: option.split)

lemma resolve_snoc_field:
  "resolve v0 segs = Some (PDict kvs) \<Longrightarrow> resolve v0 (segs @ [Field k]) = map_of kvs k"
  by (simp add: resolve_append split: option.split)

lemma resolve_snoc_index:
  "resolve v0 segs = Some (PList xs) \<Longrightarrow> i < length xs \<Longrightarrow>
   resolve v0 (segs @ [Index i]) = Some (xs ! i)"
  by (simp add: resolve_append)

lemma list_all2_concat_map:
  "(\<And>x. x \<in> set xs \<Longrightarrow> list_all2 P (f x) (g x)) \<Longrightarrow>
   list_all2 P (concat (map f xs)) (concat (map g xs))"
  by (induction xs) (auto intro: list_all2_appendI)

lemma list_all2_map_same:
  "(\<And>x. x \<in> set xs \<Longrightarrow> P (f x) (g x)) \<Longrightarrow> list_all2 P (map f xs) (map g xs)"
  by (induction xs) auto

lemma surplus_addrs:
  "list_all2 (record_ok old0 new0)
     (map (\<lambda>i. segs @ [Index i]) [min (length ol) (length nl)..<max (length ol) (length nl)])
     (map (\<lambda>i. removed_rec (full_path (render segs) (index_seg i)) (ol ! i))
          [length nl..<length ol]
      @ map (\<lambda>i. added_rec (full_path (render segs) (index_seg i)) (nl ! i))
            [length ol..<length nl])"
  if "resolve old0 segs = Some (PList ol)" and "resolve new0 segs = Some (PList nl)"
proof (cases "length nl < length ol")
  case True
  then have "list_all2 (record_ok old0 new0)
     (map (\<lambda>i. segs @ [Index i]) [length nl..<length ol])
     (map (\<lambda>i. removed_rec (full_path (render segs) (index_seg i)) (ol ! i))
          [length nl..<length ol])"
    using that
    by (intro list_all2_map_same)
       (simp add: record_ok_def record_path_def record_at_def removed_rec_def render_snoc
                  resolve_snoc_index)
  then show ?thesis
    using True by (simp add: min_def max_def)
next
  case False
  then have "list_all2 (record_ok old0 new0)
     (map (\<lambda>i. segs @ [Index i]) [length ol..<length nl])
     (map (\<lambda>i. added_rec (full_path (render segs) (index_seg i)) (nl ! i))
          [length ol..<length nl])"
    using that
    by (intro list_all2_map_same)
       (simp add: record_ok_def record_path_def record_at_def added_rec_def render_snoc
                  resolve_snoc_index)
  then show ?thesis
    using False by (simp add: min_def max_def)
qed

lemma addrs_records:
  "wf_val old \<Longrightarrow> wf_val new \<Longrightarrow>
   resolve old0 segs = Some old \<Longrightarrow> resolve new0 segs = Some new \<Longrightarrow>
   list_all2 (record_ok old0 new0) (addrs old new segs) (compare_dicts old new (render segs))"
proof (induction old new segs rule: addrs.induct)
  case (1 od nd segs)
  have dod: "distinct (map fst od)" and dnd: "distinct (map fst nd)"
    using "1.prems" by simp_all
  have old_loop:
    "list_all2 (record_ok old0 new0)
       (case map_of nd (fst kv) of
          None \<Rightarrow> [segs @ [Field (fst kv)]]
        | Some v' \<Rightarrow> addrs (snd kv) v' (segs @ [Field (fst kv)]))
       (case map_of nd (fst kv) of
          None \<Rightarrow> [removed_rec (full_path (render segs) (fst kv)) (snd kv)]
        | Some v' \<Rightarrow> compare_dicts (snd kv) v' (full_path (render segs) (fst kv)))"
    if kv: "kv \<in> set od" for kv
  proof -
    have ro: "resolve old0 (segs @ [Field (fst kv)]) = Some (snd kv)"
      using "1.prems"(3) map_of_distinct_item [OF dod kv] by (simp add: resolve_snoc_field)
    show ?thesis
    proof (cases "map_of nd (fst kv)")
      case None
      then show ?thesis
        using ro
        by (simp add: record_ok_def record_path_def record_at_def removed_rec_def render_snoc)
    next
      case (Some v')
      have "(fst kv, v') \<in> set nd"
        using Some by (rule map_of_SomeD)
      then have wn: "wf_val v'"
        using "1.prems"(2) by (auto simp: list_all_iff)
      have wo: "wf_val (snd kv)"
        using "1.prems"(1) kv by (auto simp: list_all_iff)
      have rn: "resolve new0 (segs @ [Field (fst kv)]) = Some v'"
        using "1.prems"(4) Some by (simp add: resolve_snoc_field)
      have "list_all2 (record_ok old0 new0) (addrs (snd kv) v' (segs @ [Field (fst kv)]))
              (compare_dicts (snd kv) v' (render (segs @ [Field (fst kv)])))"
        using "1.IH" [OF kv Some wo wn ro rn] .
      then show ?thesis
        using Some by (simp add: render_snoc)
    qed
  qed
  have new_loop:
    "list_all2 (record_ok old0 new0)
       (if map_of od (fst kv) = None then [segs @ [Field (fst kv)]] else [])
       (if map_of od (fst kv) = None
        then [added_rec (full_path (render segs) (fst kv)) (snd kv)] else [])"
    if kv: "kv \<in> set nd" for kv
  proof -
    have "resolve new0 (segs @ [Field (fst kv)]) = Some (snd kv)"
      using "1.prems"(4) map_of_distinct_item [OF dnd kv] by (simp add: resolve_snoc_field)
    then show ?thesis
      by (simp add: record_ok_def record_path_def record_at_def added_rec_def render_snoc)
  qed
  show ?case
    unfolding addrs.simps compare_dicts_dict map_filter_concat
    by (intro list_all2_appendI list_all2_concat_map old_loop new_loop)
next
  case (2 ol nl segs)
  have prefix:
    "list_all2 (record_ok old0 new0) (addrs (ol ! i) (nl ! i) (segs @ [Index i]))
       (compare_dicts (ol ! i) (nl ! i) (full_path (render segs) (index_seg i)))"
    if i: "i \<in> set [0..<min (length ol) (length nl)]" for i
  proof -
    have lo: "i < length ol" and ln: "i < length nl"
      using i by simp_all
    have wo: "wf_val (ol ! i)" and wn: "wf_val (nl ! i)"
      using "2.prems"(1,2) lo ln by (simp_all add: list_all_length)
    have ro: "resolve old0 (segs @ [Index i]) = Some (ol ! i)"
      using "2.prems"(3) lo by (rule resolve_snoc_index)
    have rn: "resolve new0 (segs @ [Index i]) = Some (nl ! i)"
      using "2.prems"(4) ln by (rule resolve_snoc_index)
    show ?thesis
      using "2.IH" [OF i wo wn ro rn] by (simp add: render_snoc)
  qed
  show ?case
    unfolding addrs.simps compare_dicts_list
    by (intro list_all2_appendI list_all2_concat_map prefix
              surplus_addrs [OF "2.prems"(3) "2.prems"(4)])
qed (auto simp: record_ok_def record_path_def record_at_def modified_rec_def)

lemma surplus_paths:
  "list_all2 record_path
     (map (\<lambda>i. segs @ [Index i]) [min (length ol) (length nl)..<max (length ol) (length nl)])
     (map (\<lambda>i. removed_rec (full_path (render segs) (index_seg i)) (ol ! i))
          [length nl..<length ol]
      @ map (\<lambda>i. added_rec (full_path (render segs) (index_seg i)) (nl ! i))
            [length ol..<length nl])"
proof (cases "length nl < length ol")
  case True
  have "list_all2 record_path
     (map (\<lambda>i. segs @ [Index i]) [length nl..<length ol])
     (map (\<lambda>i. removed_rec (full_path (render segs) (index_seg i)) (ol ! i))
          [length nl..<length ol])"
    by (intro list_all2_map_same) (simp add: record_path_def removed_rec_def render_snoc)
  then show ?thesis
    using True by (simp add: min_def max_def)
next
  case False
  have "list_all2 record_path
     (map (\<lambda>i. segs @ [Index i]) [length ol..<length nl])
     (map (\<lambda>i. added_rec (full_path (render segs) (index_seg i)) (nl ! i))
          [length ol..<length nl])"
    by (intro list_all2_map_same) (simp add: record_path_def added_rec_def render_snoc)
  then show ?thesis
    using False by (simp add: min_def max_def)
qed

lemma addrs_paths:
  "list_all2 record_path (addrs old new segs) (compare_dicts old new (render segs))"
proof (induction old new segs rule: addrs.induct)
  case (1 od nd segs)
  have old_loop:
    "list_all2 record_path
       (case map_of nd (fst kv) of
          None \<Rightarrow> [segs @ [Field (fst kv)]]
        | Some v' \<Rightarrow> addrs (snd kv) v' (segs @ [Field (fst kv)]))
       (case map_of nd (fst kv) of
          None \<Rightarrow> [removed_rec (full_path (render segs) (fst kv)) (snd kv)]
        | Some v' \<Rightarrow> compare_dicts (snd kv) v' (full_path (render segs) (fst kv)))"
    if kv: "kv \<in> set od" for kv
  proof (cases "map_of nd (fst kv)")
    case None
    then show ?thesis
      by (simp add: record_path_def removed_rec_def render_snoc)
  next
    case (Some v')
    have "list_all2 record_path (addrs (snd kv) v' (segs @ [Field (fst kv)]))
            (compare_dicts (snd kv) v' (render (segs @ [Field (fst kv)])))"
      using "1.IH" [OF kv Some] .
    then show ?thesis
      using Some by (simp add: render_snoc)
  qed
  have new_loop:
    "list_all2 record_path
       (if map_of od (fst kv) = None then [segs @ [Field (fst kv)]] else [])
       (if map_of od (fst kv) = None
        then [added_rec (full_path (render segs) (fst kv)) (snd kv)] else [])"
    for kv
    by (simp add: record_path_def added_rec_def render_snoc)
  show ?case
    unfolding addrs.simps compare_dicts_dict map_filter_concat
    by (intro list_all2_appendI list_all2_concat_map old_loop new_loop)
next
  case (2 ol nl segs)
  have prefix:
    "list_all2 record_path (addrs (ol ! i) (nl ! i) (segs @ [Index i]))
       (compare_dicts (ol ! i) (nl ! i) (full_path (render segs) (index_seg i)))"
    if i: "i \<in> set [0..<min (length ol) (length nl)]" for i
    using "2.IH" [OF i] by (simp add: render_snoc)
  show ?case
    unfolding addrs.simps compare_dicts_list
    by (intro list_all2_appendI list_all2_concat_map prefix surplus_paths)
qed (auto simp: record_path_def modified_rec_def)

lemma dot_join_snoc:
  "dot_join (xs @ [s]) = (if xs = [] then s else dot_join xs @ ''.'' @ s)"
  by (induction xs rule: dot_join.induct) simp_all

lemma dot_join_nonempty:
  "xs \<noteq> [] \<Longrightarrow> \<forall>s\<in>set xs. s \<noteq> [] \<Longrightarrow> dot_join xs \<noteq> []"
  by (induction xs rule: dot_join.induct) simp_all

lemma render_dot_join:
  "\<forall>s\<in>set segs. seg_str s \<noteq> [] \<Longrightarrow> render segs = dot_join (map seg_str segs)"
proof (induction segs rule: rev_induct)
  case Nil
  show ?case by (simp add: render_def)
next
  case (snoc s segs)
  then have eq: "render segs = dot_join (map seg_str segs)"
    by simp
  show ?case
  proof (cases "segs = []")
    case True
    then show ?thesis
      by (simp add: render_def full_path_def)
  next
    case False
    then have "dot_join (map seg_str segs) \<noteq> []"
      using snoc.prems by (intro dot_join_nonempty) auto
    then show ?thesis
      using False eq by (simp add: render_snoc dot_join_snoc full_path_def)
  qed
qed

text \<open>
  C3, as amended. The path string of every record of \<^verbatim>\<open>compare_dicts\<close> is the rendering of
  its path segments by \<^verbatim>\<open>full_path\<close>, in which a field name contributes the name and a
  list index contributes \<open>[i]\<close>, each segment joined to a non-empty prefix by a dot, also
  before the bracket: a path through the fields \<open>a\<close>, \<open>b\<close>, the index 2 and the field \<open>c\<close>
  renders as \<open>a.b.[2].c\<close>. With non-empty field names this is the segments joined by
  dots. A \<^verbatim>\<open>modified\<close> record whose rendering is empty, as at the root, has the path
  string \<open>/\<close>.
\<close>

theorem record_paths_rendered:
  "list_all2 record_path (addrs old new []) (compare_dicts old new []) \<and>
   ((\<forall>s\<in>set segs. seg_str s \<noteq> []) \<longrightarrow> render segs = dot_join (map seg_str segs)) \<and>
   render [Field ''a'', Field ''b'', Index 2, Field ''c''] = ''a.b.[2].c'' \<and>
   record_path [] (modified_rec ''/'' a b)"
proof (intro conjI)
  show "list_all2 record_path (addrs old new []) (compare_dicts old new [])"
    using addrs_paths [of old new "[]"] by (simp add: render_def)
  show "(\<forall>s\<in>set segs. seg_str s \<noteq> []) \<longrightarrow> render segs = dot_join (map seg_str segs)"
    using render_dot_join by blast
  show "render [Field ''a'', Field ''b'', Index 2, Field ''c''] = ''a.b.[2].c''"
    by (simp add: render_def full_path_def index_seg_def str_nat.simps)
  show "record_path [] (modified_rec ''/'' a b)"
    by (simp add: record_path_def modified_rec_def render_def)
qed

theorem record_paths_rendered_witness:
  "seg_str (Field ''a'') \<noteq> [] \<and> seg_str (Index 0) \<noteq> [] \<and>
   render [Field ''a'', Index 0] = dot_join [''a'', ''[0]''] \<and>
   addrs (PDict [(''a'', PList [PInt 1])]) (PDict [(''a'', PList [PInt 2])]) [] =
     [[Field ''a'', Index 0]] \<and>
   compare_dicts (PDict [(''a'', PList [PInt 1])]) (PDict [(''a'', PList [PInt 2])]) [] =
     [PDict [(''type'', PStr ''modified''), (''path'', PStr ''a.[0]''),
             (''old'', PInt 1), (''new'', PInt 2)]] \<and>
   list_all2 record_path
     (addrs (PDict [(''a'', PList [PInt 1])]) (PDict [(''a'', PList [PInt 2])]) [])
     (compare_dicts (PDict [(''a'', PList [PInt 1])]) (PDict [(''a'', PList [PInt 2])]) [])"
  using record_paths_rendered
          [of "PDict [(''a'', PList [PInt 1])]" "PDict [(''a'', PList [PInt 2])]"
              "[Field ''a'', Index 0]"]
  by (simp add: compare_dicts_dict compare_dicts_list eval_defs str_nat.simps)

text \<open>
  The claim fails as stated: for the documents \<^verbatim>\<open>{"a": [1]}\<close> and \<^verbatim>\<open>{"a": [2]}\<close> the one
  record is at the field \<open>a\<close>, index 0, and its path string is \<open>a.[0]\<close>, while the
  rendering described by the claim is \<open>a[0]\<close>.
\<close>

theorem spec_paths_counterexample:
  "\<not> spec_paths (PDict [(''a'', PList [PInt 1])]) (PDict [(''a'', PList [PInt 2])])"
  by (simp add: spec_paths_def spec_render_def compare_dicts_dict compare_dicts_list
                eval_defs str_nat.simps)

text \<open>
  C1, as amended. Every record of \<^verbatim>\<open>compare_dicts(old, new)\<close> has its path string
  rendered from an address of the documents, the fields and indices passed on the way
  to the record, such that: if the record's type is \<^verbatim>\<open>removed\<close> or \<^verbatim>\<open>modified\<close>,
  the old document holds at this address exactly the record's \<^verbatim>\<open>old\<close> value, and if the
  type is \<^verbatim>\<open>added\<close> or \<^verbatim>\<open>modified\<close>, the new document holds at this address exactly the
  record's \<^verbatim>\<open>new\<close> value. The keys of each dictionary are distinct, as in every Python
  dictionary.
\<close>

theorem record_values_resolve:
  assumes "wf_val old" and "wf_val new"
  shows "list_all2
           (\<lambda>segs r.
              record_path segs r \<and>
              (field r ''type'' = Some (PStr ''removed'') \<or>
               field r ''type'' = Some (PStr ''modified'') \<longrightarrow>
                 (\<exists>v. field r ''old'' = Some v \<and> resolve old segs = Some v)) \<and>
              (field r ''type'' = Some (PStr ''added'') \<or>
               field r ''type'' = Some (PStr ''modified'') \<longrightarrow>
                 (\<exists>v. field r ''new'' = Some v \<and> resolve new segs = Some v)))
           (addrs old new []) (compare_dicts old new [])"
proof -
  have "list_all2 (record_ok old new) (addrs old new []) (compare_dicts old new (render []))"
    using assms by (intro addrs_records) simp_all
  then have "list_all2 (record_ok old new) (addrs old new []) (compare_dicts old new [])"
    by (simp add: render_def)
  then show ?thesis
    by (rule list_all2_mono)
       (auto simp: record_ok_def record_at_def split: option.splits pyval.splits if_splits)
qed

theorem record_values_resolve_witness:
  "wf_val (PDict [(''a'', PList [PInt 1, PInt 2, PInt 3]), (''x'', PInt 1)]) \<and>
   wf_val (PDict [(''a'', PList [PInt 1, PInt 5]), (''y'', PNone)]) \<and>
   addrs (PDict [(''a'', PList [PInt 1, PInt 2, PInt 3]), (''x'', PInt 1)])
         (PDict [(''a'', PList [PInt 1, PInt 5]), (''y'', PNone)]) [] =
     [[Field ''a'', Index 1], [Field ''a'', Index 2], [Field ''x''], [Field ''y'']] \<and>
   compare_dicts (PDict [(''a'', PList [PInt 1, PInt 2, PInt 3]), (''x'', PInt 1)])
                 (PDict [(''a'', PList [PInt 1, PInt 5]), (''y'', PNone)]) [] =
     [modified_rec ''a.[1]'' (PInt 2) (PInt 5), removed_rec ''a.[2]'' (PInt 3),
      removed_rec ''x'' (PInt 1), added_rec ''y'' PNone] \<and>
   resolve (PDict [(''a'', PList [PInt 1, PInt 2, PInt 3]), (''x'', PInt 1)])
           [Field ''a'', Index 2] = Some (PInt 3) \<and>
   list_all2
     (\<lambda>segs r.
        record_path segs r \<and>
        (field r ''type'' = Some (PStr ''removed'') \<or>
         field r ''type'' = Some (PStr ''modified'') \<longrightarrow>
           (\<exists>v. field r ''old'' = Some v \<and>
                resolve (PDict [(''a'', PList [PInt 1, PInt 2, PInt 3]), (''x'', PInt 1)]) segs
                  = Some v)) \<and>
        (field r ''type'' = Some (PStr ''added'') \<or>
         field r ''type'' = Some (PStr ''modified'') \<longrightarrow>
           (\<exists>v. field r ''new'' = Some v \<and>
                resolve (PDict [(''a'', PList [PInt 1, PInt 5]), (''y'', PNone)]) segs
                  = Some v)))
     (addrs (PDict [(''a'', PList [PInt 1, PInt 2, PInt 3]), (''x'', PInt 1)])
            (PDict [(''a'', PList [PInt 1, PInt 5]), (''y'', PNone)]) [])
     (compare_dicts (PDict [(''a'', PList [PInt 1, PInt 2, PInt 3]), (''x'', PInt 1)])
                    (PDict [(''a'', PList [PInt 1, PInt 5]), (''y'', PNone)]) [])"
proof -
  have w: "wf_val (PDict [(''a'', PList [PInt 1, PInt 2, PInt 3]), (''x'', PInt 1)])"
          "wf_val (PDict [(''a'', PList [PInt 1, PInt 5]), (''y'', PNone)])"
    by simp_all
  have a: "addrs (PDict [(''a'', PList [PInt 1, PInt 2, PInt 3]), (''x'', PInt 1)])
         (PDict [(''a'', PList [PInt 1, PInt 5]), (''y'', PNone)]) [] =
     [[Field ''a'', Index 1], [Field ''a'', Index 2], [Field ''x''], [Field ''y'']]"
    by (simp add: py_ne_def float_eq_def)
  have c: "compare_dicts (PDict [(''a'', PList [PInt 1, PInt 2, PInt 3]), (''x'', PInt 1)])
                 (PDict [(''a'', PList [PInt 1, PInt 5]), (''y'', PNone)]) [] =
     [modified_rec ''a.[1]'' (PInt 2) (PInt 5), removed_rec ''a.[2]'' (PInt 3),
      removed_rec ''x'' (PInt 1), added_rec ''y'' PNone]"
    by (simp add: compare_dicts_dict compare_dicts_list py_ne_def float_eq_def full_path_def
                  index_seg_def str_nat.simps)
  have r: "resolve (PDict [(''a'', PList [PInt 1, PInt 2, PInt 3]), (''x'', PInt 1)])
           [Field ''a'', Index 2] = Some (PInt 3)"
    by simp
  show ?thesis
    using record_values_resolve [OF w] w a c r by blast
qed

text \<open>
  The claim fails as stated, whatever the way of resolving a path string: the diff of
  \<^verbatim>\<open>{"a.b": 1, "a": {"b": 2}}\<close> against \<^verbatim>\<open>{"a.b": 9, "a": {"b": 3}}\<close> has two
  \<^verbatim>\<open>modified\<close> records with the same path string \<open>a.b\<close> and the old values 1 and 2, so
  the path of one of them does not resolve to its value.
\<close>

theorem path_resolves_counterexample:
  "compare_dicts (PDict [(''a.b'', PInt 1), (''a'', PDict [(''b'', PInt 2)])])
                 (PDict [(''a.b'', PInt 9), (''a'', PDict [(''b'', PInt 3)])]) [] =
     [modified_rec ''a.b'' (PInt 1) (PInt 9), modified_rec ''a.b'' (PInt 2) (PInt 3)] \<and>
   \<not> (\<exists>res. path_resolves res
               (PDict [(''a.b'', PInt 1), (''a'', PDict [(''b'', PInt 2)])])
               (PDict [(''a.b'', PInt 9), (''a'', PDict [(''b'', PInt 3)])]))"
proof -
  have c: "compare_dicts (PDict [(''a.b'', PInt 1), (''a'', PDict [(''b'', PInt 2)])])
                 (PDict [(''a.b'', PInt 9), (''a'', PDict [(''b'', PInt 3)])]) [] =
     [modified_rec ''a.b'' (PInt 1) (PInt 9), modified_rec ''a.b'' (PInt 2) (PInt 3)]"
    by (simp add: compare_dicts_dict py_ne_def float_eq_def full_path_def)
  show ?thesis
    unfolding path_resolves_def c by (simp add: modified_rec_def)
qed

end
